theory Spec2Isabelle
  imports Main "HOL-Library.Word" "HOL-Library.Sublist"
begin

section \<open>JavaScript strings\<close>

text \<open>
  A JavaScript string is a sequence of UTF-16 code units. The regular expressions of
  the upload page carry no \<open>u\<close> flag, so they match code unit by code unit, and
  \<open>trim\<close> removes code units of the white-space class (all of them lie in the basic
  plane). A string is therefore a list of 16-bit words; \<open>js\<close> embeds the ASCII
  literals of the source.
\<close>

type_synonym code_unit = "16 word"
type_synonym jsstring = "code_unit list"

definition js :: "string \<Rightarrow> jsstring" where
  "js s = map (\<lambda>c. of_nat (of_char c)) s"

abbreviation NUMBER_SIGN :: code_unit where "NUMBER_SIGN \<equiv> 0x23"
abbreviation DOLLAR :: code_unit where "DOLLAR \<equiv> 0x24"
abbreviation AMPERSAND :: code_unit where "AMPERSAND \<equiv> 0x26"
abbreviation APOSTROPHE :: code_unit where "APOSTROPHE \<equiv> 0x27"
abbreviation HYPHEN :: code_unit where "HYPHEN \<equiv> 0x2D"
abbreviation FULL_STOP :: code_unit where "FULL_STOP \<equiv> 0x2E"
abbreviation SOLIDUS :: code_unit where "SOLIDUS \<equiv> 0x2F"
abbreviation QUESTION_MARK :: code_unit where "QUESTION_MARK \<equiv> 0x3F"
abbreviation LOW_LINE :: code_unit where "LOW_LINE \<equiv> 0x5F"
abbreviation GRAVE :: code_unit where "GRAVE \<equiv> 0x60"
abbreviation LBRACE :: code_unit where "LBRACE \<equiv> 0x7B"
abbreviation RBRACE :: code_unit where "RBRACE \<equiv> 0x7D"

section \<open>String.prototype.replace with a global literal pattern\<close>

text \<open>
  \<open>GetSubstitution\<close> of ECMAScript expands the replacement string of
  \<open>str.replace(regex, replacement)\<close>. The patterns of the page have no capture
  groups, so the only active references are \<open>$$\<close> (a dollar), \<open>$&\<close> (the matched
  text), \<open>$`\<close> (the text before the match) and \<open>$'\<close> (the text after it); a dollar
  followed by anything else stands for itself.
\<close>

fun GetSubstitution :: "jsstring \<Rightarrow> jsstring \<Rightarrow> jsstring \<Rightarrow> jsstring \<Rightarrow> jsstring" where
  "GetSubstitution matched preceding following (c # d # r) =
     (if c = DOLLAR then
        (if d = DOLLAR then DOLLAR # GetSubstitution matched preceding following r
         else if d = AMPERSAND then matched @ GetSubstitution matched preceding following r
         else if d = GRAVE then preceding @ GetSubstitution matched preceding following r
         else if d = APOSTROPHE then following @ GetSubstitution matched preceding following r
         else c # GetSubstitution matched preceding following (d # r))
      else c # GetSubstitution matched preceding following (d # r))"
| "GetSubstitution matched preceding following r = r"

text \<open>
  \<open>replace_from pat repl seen s\<close> scans \<open>s\<close> from the left, \<open>seen\<close> being the part
  of the subject already passed. Where the literal \<open>pat\<close> starts, the expansion of
  \<open>repl\<close> is emitted and the scan resumes after the match (matches do not overlap);
  elsewhere the code unit is copied. The patterns of the page are non-empty literals.
\<close>

function replace_from :: "jsstring \<Rightarrow> jsstring \<Rightarrow> jsstring \<Rightarrow> jsstring \<Rightarrow> jsstring" where
  "replace_from pat repl seen [] = []"
| "replace_from pat repl seen (c # cs) =
     (if pat \<noteq> [] \<and> prefix pat (c # cs)
      then GetSubstitution pat seen (drop (length pat) (c # cs)) repl
           @ replace_from pat repl (seen @ pat) (drop (length pat) (c # cs))
      else c # replace_from pat repl (seen @ [c]) cs)"
  by pat_completeness auto
termination
  by (relation "measure (\<lambda>(pat, repl, seen, s). length s)") (auto simp: neq_Nil_conv)

definition replace_global :: "jsstring \<Rightarrow> jsstring \<Rightarrow> jsstring \<Rightarrow> jsstring" where
  "replace_global pat repl s = replace_from pat repl [] s"

section \<open>The upload page\<close>

text \<open>The state of the \<open>UploadPage\<close> component: the route parameter and its \<open>useState\<close> cells.\<close>

record upload_page =
  siteId :: jsstring
  activeCategory :: jsstring
  componentNames :: "jsstring list"
  categoryNames :: "jsstring \<rightharpoonup> jsstring"
  uploadedImages :: "jsstring \<rightharpoonup> jsstring"
  isEditModalOpen :: bool
  isCategoryEditModalOpen :: bool
  isNamingFormatModalOpen :: bool
  editableNames :: "jsstring list"
  editableCategoryNames :: "jsstring \<rightharpoonup> jsstring"
  namingFormat :: jsstring
  editableNamingFormat :: jsstring

subsection \<open>getPreviewFilename\<close>

definition pat_site_id :: jsstring where
  "pat_site_id = js ''{site_id}''"

definition pat_category :: jsstring where
  "pat_category = js ''{category}''"

definition pat_component_name :: jsstring where
  "pat_component_name = js ''{component_name}''"

text \<open>The character class \<open>[a-zA-Z0-9_-]\<close>, whose complement the last replacement matches.\<close>

definition allowed :: "code_unit \<Rightarrow> bool" where
  "allowed c = ((0x61 \<le> c \<and> c \<le> 0x7A) \<or> (0x41 \<le> c \<and> c \<le> 0x5A)
     \<or> (0x30 \<le> c \<and> c \<le> 0x39) \<or> c = LOW_LINE \<or> c = HYPHEN)"

text \<open>\<open>preview.replace(/[^a-zA-Z0-9_-]/g, '_')\<close>: every match is one code unit.\<close>

definition sanitize :: "jsstring \<Rightarrow> jsstring" where
  "sanitize s = map (\<lambda>c. if allowed c then c else LOW_LINE) s"

text \<open>The three placeholder replacements, in the order of the source.\<close>

definition substitute :: "upload_page \<Rightarrow> jsstring" where
  "substitute st =
     replace_global pat_component_name (js ''Antenna_Front_View'')
       (replace_global pat_category (activeCategory st)
         (replace_global pat_site_id (siteId st) (editableNamingFormat st)))"

definition getPreviewFilename :: "upload_page \<Rightarrow> jsstring" where
  "getPreviewFilename st = sanitize (substitute st) @ js ''.jpg''"

text \<open>The cells as \<open>useState\<close> initialises them, for the route parameter \<open>sid\<close>.\<close>

definition initial_page :: "jsstring \<Rightarrow> upload_page" where
  "initial_page sid =
     \<lparr> siteId = sid,
       activeCategory = js ''alpha'',
       componentNames = [],
       categoryNames = [js ''alpha'' \<mapsto> js ''Alpha'', js ''beta'' \<mapsto> js ''Beta'',
                        js ''gamma'' \<mapsto> js ''Gamma''],
       uploadedImages = Map.empty,
       isEditModalOpen = False,
       isCategoryEditModalOpen = False,
       isNamingFormatModalOpen = False,
       editableNames = [],
       editableCategoryNames = Map.empty,
       namingFormat = js ''{site_id}_{category}_{component_name}'',
       editableNamingFormat = [] \<rparr>"

subsection \<open>Sequential and simultaneous substitution\<close>

text \<open>
  A rule is a placeholder with the text that replaces it. \<open>sequential\<close> runs one
  global replacement after the other, as the page does; \<open>preview_rules\<close> are the
  three replacements of \<open>getPreviewFilename\<close> in the order of the source.
\<close>

type_synonym rule = "jsstring \<times> jsstring"

definition sequential :: "rule list \<Rightarrow> jsstring \<Rightarrow> jsstring" where
  "sequential rules s = foldl (\<lambda>t (pat, v). replace_global pat v t) s rules"

definition preview_rules :: "upload_page \<Rightarrow> rule list" where
  "preview_rules st =
     [(pat_site_id, siteId st), (pat_category, activeCategory st),
      (pat_component_name, js ''Antenna_Front_View'')]"

text \<open>
  The simultaneous substitution of the renderer contract: one scan of the format, in
  which a placeholder is replaced by its value verbatim and the value is not looked at
  again.
\<close>

definition starts :: "jsstring \<Rightarrow> rule \<Rightarrow> bool" where
  "starts s = (\<lambda>(pat, v). pat \<noteq> [] \<and> prefix pat s)"

function simultaneous :: "rule list \<Rightarrow> jsstring \<Rightarrow> jsstring" where
  "simultaneous rules [] = []"
| "simultaneous rules (c # cs) =
     (case find (starts (c # cs)) rules of
        Some (pat, v) \<Rightarrow> v @ simultaneous rules (drop (length pat) (c # cs))
      | None \<Rightarrow> c # simultaneous rules cs)"
  by pat_completeness auto
termination
  by (relation "measure (\<lambda>(rules, s). length s)")
     (auto simp: find_Some_iff starts_def neq_Nil_conv)

text \<open>
  Side conditions under which replacements cannot interact. A placeholder is
  \<open>braced\<close>: it opens with the only left brace it has. A value is \<open>plain\<close>: not
  empty, without a dollar (so that it is inserted as it is) and without a left brace.
  \<open>no_clash x v\<close>: no non-empty tail of \<open>x\<close> begins with \<open>v\<close> or is the beginning of
  \<open>v\<close>, so an inserted \<open>v\<close> cannot complete the placeholder body \<open>x\<close>.
\<close>

definition braced :: "jsstring \<Rightarrow> bool" where
  "braced pat = (pat \<noteq> [] \<and> hd pat = LBRACE \<and> LBRACE \<notin> set (tl pat))"

definition plain :: "jsstring \<Rightarrow> bool" where
  "plain v = (v \<noteq> [] \<and> DOLLAR \<notin> set v \<and> LBRACE \<notin> set v)"

fun no_clash :: "jsstring \<Rightarrow> jsstring \<Rightarrow> bool" where
  "no_clash [] v = True"
| "no_clash (c # x) v = (\<not> prefix (c # x) v \<and> \<not> prefix v (c # x) \<and> no_clash x v)"

definition independent :: "rule list \<Rightarrow> bool" where
  "independent rules =
     (distinct (map fst rules)
      \<and> (\<forall>x \<in> set rules. braced (fst x) \<and> plain (snd x))
      \<and> (\<forall>x \<in> set rules. \<forall>y \<in> set rules.
            fst x \<noteq> fst y \<longrightarrow> \<not> prefix (fst x) (fst y) \<and> no_clash (tl (fst x)) (snd y)))"

text \<open>A placeholder of the shape \<open>{name}\<close>, the name free of braces.\<close>

definition closed_pat :: "jsstring \<Rightarrow> bool" where
  "closed_pat pat =
     (case pat of [] \<Rightarrow> False
      | c # q \<Rightarrow> c = LBRACE \<and> q \<noteq> [] \<and> last q = RBRACE
                 \<and> LBRACE \<notin> set q \<and> RBRACE \<notin> set (butlast q))"

subsection \<open>The Template Renderer contract\<close>

text \<open>
  The contract of section 4.1 of the spec, written from its words so that the preview
  of the page can be compared with it. Its bindings give the site, the category and the
  component of a slot.
\<close>

record bindings =
  bound_site :: jsstring
  bound_category :: jsstring
  bound_component :: jsstring

text \<open>Case mapping on the ASCII letters; other code units are left as they are.\<close>

definition toLowerCase :: "jsstring \<Rightarrow> jsstring" where
  "toLowerCase s = map (\<lambda>c. if 0x41 \<le> c \<and> c \<le> 0x5A then c + 0x20 else c) s"

definition toUpperCase :: "jsstring \<Rightarrow> jsstring" where
  "toUpperCase s = map (\<lambda>c. if 0x61 \<le> c \<and> c \<le> 0x7A then c - 0x20 else c) s"

text \<open>
  \<open>spec_render\<close> follows the words of the spec: substitute each recognised
  placeholder verbatim with its bound value, replace every character outside
  \<open>[A-Za-z0-9_-]\<close> by a low line, and append a full stop and the lower-cased extension of
  the uploaded file.
\<close>

definition spec_render :: "jsstring \<Rightarrow> bindings \<Rightarrow> jsstring \<Rightarrow> jsstring" where
  "spec_render format b extension =
     sanitize (simultaneous [(pat_site_id, bound_site b), (pat_category, bound_category b),
                             (pat_component_name, bound_component b)] format)
     @ [FULL_STOP] @ toLowerCase extension"

text \<open>The extension of a file name: what follows its last full stop.\<close>

definition extension_of :: "jsstring \<Rightarrow> jsstring" where
  "extension_of name = rev (takeWhile (\<lambda>c. c \<noteq> FULL_STOP) (rev name))"

subsection \<open>Component names\<close>

datatype toast = toast_error jsstring | toast_success jsstring

text \<open>
  \<open>handleRemoveComponent\<close>: with one name or none left the removal is refused with a
  toast; otherwise \<open>filter((_, i) => i !== index)\<close> drops the entry at \<open>index\<close>.
\<close>

definition handleRemoveComponent :: "nat \<Rightarrow> upload_page \<Rightarrow> toast option \<times> upload_page" where
  "handleRemoveComponent index st =
     (if length (editableNames st) \<le> 1
      then (Some (toast_error (js ''Must have at least one component'')), st)
      else (None, st\<lparr>editableNames :=
              map snd (filter (\<lambda>(i, _). i \<noteq> index) (enumerate 0 (editableNames st)))\<rparr>))"

text \<open>String.prototype.trim: the WhiteSpace and LineTerminator code units of ECMAScript.\<close>

definition isWhiteSpace :: "code_unit \<Rightarrow> bool" where
  "isWhiteSpace c =
     (c \<in> set [0x09, 0x0A, 0x0B, 0x0C, 0x0D, 0x20, 0xA0, 0x1680, 0x2028, 0x2029,
                0x202F, 0x205F, 0x3000, 0xFEFF]
      \<or> (0x2000 \<le> c \<and> c \<le> 0x200A))"

definition trim :: "jsstring \<Rightarrow> jsstring" where
  "trim s = rev (dropWhile isWhiteSpace (rev (dropWhile isWhiteSpace s)))"

text \<open>The error kinds of section 7 of the spec, and the registry of component names.\<close>

datatype error = EmptyTaxonomyError | UnknownCategoryError | InvalidFormatError
  | UnsupportedFormatError | StorageWriteError | NoImagesError

record registry =
  components :: "jsstring list"

text \<open>
  Modelled from the spec: \<open>listComponents\<close> of the Taxonomy Registry (section 4.2),
  kept by the server, which is not among the sources. It returns the current names in
  their order.
\<close>

definition listComponents :: "registry \<Rightarrow> jsstring list" where
  "listComponents reg = components reg"

text \<open>
  Modelled from the spec: \<open>replaceComponents\<close> of the Taxonomy Registry (section 4.2),
  kept by the server, which is not among the sources. It fails with
  \<open>EmptyTaxonomyError\<close> on the empty sequence and leaves the registry as it was;
  otherwise it trims every entry and replaces the list as a whole, without removing
  duplicates.
\<close>

definition replaceComponents :: "jsstring list \<Rightarrow> registry \<Rightarrow> (error + unit) \<times> registry" where
  "replaceComponents names reg =
     (if names = [] then (Inl EmptyTaxonomyError, reg)
      else (Inr (), reg\<lparr>components := map trim names\<rparr>))"

subsection \<open>Categories\<close>

text \<open>The literal \<open>['alpha', 'beta', 'gamma']\<close> that the tabs and the label editor map over.\<close>

definition categories :: "jsstring list" where
  "categories = [js ''alpha'', js ''beta'', js ''gamma'']"

text \<open>\<open>category.charAt(0).toUpperCase() + category.slice(1)\<close>\<close>

definition capitalize :: "jsstring \<Rightarrow> jsstring" where
  "capitalize s = toUpperCase (take 1 s) @ drop 1 s"

text \<open>
  The label of a tab: \<open>categoryNames[category] || capitalize(category)\<close>, for the
  three identifiers of the page, none of which is a member of \<open>Object.prototype\<close>. A
  missing property is \<open>undefined\<close> and, like the empty string, falsy.
\<close>

definition category_tab_label :: "upload_page \<Rightarrow> jsstring \<Rightarrow> jsstring" where
  "category_tab_label st category =
     (case categoryNames st category of
        None \<Rightarrow> capitalize category
      | Some label \<Rightarrow> if label \<noteq> [] then label else capitalize category)"

definition category_tabs :: "upload_page \<Rightarrow> (jsstring \<times> jsstring) list" where
  "category_tabs st = map (\<lambda>category. (category, category_tab_label st category)) categories"

text \<open>The inputs of the label editor, \<open>value={editableCategoryNames[key] || ''}\<close>, and their \<open>onChange\<close>.\<close>

definition category_edit_inputs :: "upload_page \<Rightarrow> (jsstring \<times> jsstring) list" where
  "category_edit_inputs st =
     map (\<lambda>key. (key, case editableCategoryNames st key of None \<Rightarrow> [] | Some label \<Rightarrow> label))
       categories"

definition category_edit_onChange :: "jsstring \<Rightarrow> jsstring \<Rightarrow> upload_page \<Rightarrow> upload_page" where
  "category_edit_onChange key v st =
     st\<lparr>editableCategoryNames := (editableCategoryNames st)(key \<mapsto> v)\<rparr>"

subsection \<open>Plain objects used as dictionaries\<close>

text \<open>
  \<open>uploadedImages\<close> is an object made by the literal \<open>{}\<close> and filled with strings.
  The state keeps its own properties, a map from names to strings; its prototype is
  \<open>Object.prototype\<close>, whose members are these (those of Annex B included, as in a
  browser).
\<close>

definition Object_prototype_names :: "jsstring list" where
  "Object_prototype_names =
     [js ''constructor'', js ''__defineGetter__'', js ''__defineSetter__'',
      js ''hasOwnProperty'', js ''__lookupGetter__'', js ''__lookupSetter__'',
      js ''isPrototypeOf'', js ''propertyIsEnumerable'', js ''toString'', js ''valueOf'',
      js ''__proto__'', js ''toLocaleString'']"

text \<open>
  \<open>obj[key] = value\<close> for a string \<open>value\<close>. The inherited members are writable data
  properties, so the assignment makes an own property that shadows them; \<open>__proto__\<close> is
  an accessor whose setter ignores a value that is neither an object nor \<open>null\<close>, so
  nothing is stored.
\<close>

definition set_property ::
  "(jsstring \<rightharpoonup> jsstring) \<Rightarrow> jsstring \<Rightarrow> jsstring \<Rightarrow> (jsstring \<rightharpoonup> jsstring)" where
  "set_property obj key v = (if key = js ''__proto__'' then obj else obj(key \<mapsto> v))"

text \<open>
  \<open>obj[key]\<close>: the own property if there is one, else the member of \<open>Object.prototype\<close>
  of that name (a function, or the prototype itself for \<open>__proto__\<close>), else \<open>undefined\<close>.
\<close>

datatype property_value = Own jsstring | Inherited jsstring

definition get_property :: "(jsstring \<rightharpoonup> jsstring) \<Rightarrow> jsstring \<Rightarrow> property_value option" where
  "get_property obj key =
     (case obj key of
        Some v \<Rightarrow> Some (Own v)
      | None \<Rightarrow> if key \<in> set Object_prototype_names then Some (Inherited key) else None)"

subsection \<open>Uploaded images\<close>

text \<open>An entry of \<open>response.data.images\<close>.\<close>

record image =
  component_name :: jsstring
  filename :: jsstring

text \<open>
  \<open>fetchCategoryImages\<close>, given what the request returned: a failure is logged to the
  console and leaves the state as it was; otherwise the entries are assigned into a fresh
  object in their order and the object becomes \<open>uploadedImages\<close>.
\<close>

definition fetchCategoryImages ::
  "jsstring + image list \<Rightarrow> upload_page \<Rightarrow> jsstring option \<times> upload_page" where
  "fetchCategoryImages response st =
     (case response of
        Inl failure \<Rightarrow> (Some (js ''Error fetching category images:''), st)
      | Inr images \<Rightarrow>
          (None, st\<lparr>uploadedImages :=
             foldl (\<lambda>imagesMap img. set_property imagesMap (component_name img) (filename img))
               Map.empty images\<rparr>))"

text \<open>
  \<open>getImageUrl\<close>: \<open>!filename\<close> holds for \<open>undefined\<close> and for the empty string; an
  inherited member is truthy. The result is the text in front of the file name and the
  value that the template literal appends to it (the text of an inherited function is
  left to the implementation).
\<close>

definition getImageUrl ::
  "jsstring \<Rightarrow> jsstring \<Rightarrow> upload_page \<Rightarrow> (jsstring \<times> property_value) option" where
  "getImageUrl BACKEND_URL componentName st =
     (case get_property (uploadedImages st) componentName of
        None \<Rightarrow> None
      | Some (Own name) \<Rightarrow>
          if name = [] then None
          else Some (BACKEND_URL @ js ''/uploads/'' @ siteId st @ js ''/'' @ activeCategory st
                     @ js ''/'', Own name)
      | Some (Inherited member) \<Rightarrow>
          Some (BACKEND_URL @ js ''/uploads/'' @ siteId st @ js ''/'' @ activeCategory st
                @ js ''/'', Inherited member))"

subsection \<open>The Slot Store and the Archive Builder\<close>

text \<open>
  A stored image, and the filled slots of the store: for a site and a category, the
  component names with their images in the order in which \<open>list\<close> enumerates them.
\<close>

record stored_image =
  storage_filename :: jsstring
  image_bytes :: "8 word list"

type_synonym slot_store = "jsstring \<Rightarrow> jsstring \<Rightarrow> (jsstring \<times> stored_image) list"

text \<open>
  Modelled from the spec: the enumeration of the Archive Builder (section 4.4), which
  runs on the server and is not among the sources. For each of the three fixed
  categories, in their fixed order, it enumerates the filled slots and names each by
  rendering the current naming format against the bindings of the slot, with the
  extension of the stored file.
\<close>

definition archive_entries ::
  "jsstring \<Rightarrow> slot_store \<Rightarrow> jsstring \<Rightarrow> (jsstring \<times> 8 word list) list" where
  "archive_entries format store site_id =
     concat (map (\<lambda>cat.
        map (\<lambda>(comp, img).
               (spec_render format
                  \<lparr>bound_site = site_id, bound_category = cat, bound_component = comp\<rparr>
                  (extension_of (storage_filename img)),
                image_bytes img))
          (store site_id cat))
        categories)"

text \<open>
  Modelled from the spec: \<open>buildArchive\<close> of the Archive Builder (section 4.4), which
  runs on the server and is not among the sources. It fails with \<open>NoImagesError\<close> when
  no slot is filled; otherwise each entry is written into the container under its
  rendered name, a later entry overwriting an earlier one of the same name.
\<close>

definition buildArchive ::
  "jsstring \<Rightarrow> slot_store \<Rightarrow> jsstring \<Rightarrow> error + (jsstring \<rightharpoonup> 8 word list)" where
  "buildArchive format store site_id =
     (if archive_entries format store site_id = [] then Inl NoImagesError
      else Inr (foldl (\<lambda>container (name, bytes). container(name \<mapsto> bytes)) Map.empty
                  (archive_entries format store site_id)))"

section \<open>The landing page\<close>

text \<open>
  \<open>handleSubmit\<close> of the landing page, on the text of the input: the target of
  \<open>navigate\<close>, if it is called. The button is disabled on \<open>!siteId.trim()\<close>.
\<close>

definition handleSubmit :: "jsstring \<Rightarrow> jsstring option" where
  "handleSubmit input =
     (if trim input \<noteq> [] then Some (js ''/upload/'' @ trim input) else None)"

definition submit_disabled :: "jsstring \<Rightarrow> bool" where
  "submit_disabled input = (trim input = [])"

text \<open>
  What the router makes of the target. \<open>parsePath\<close> of react-router cuts the target at
  its first \<open>#\<close> and, in front of it, at its first \<open>?\<close>: what precedes is the path name.
\<close>

definition parsePath_pathname :: "jsstring \<Rightarrow> jsstring" where
  "parsePath_pathname target =
     takeWhile (\<lambda>c. c \<noteq> NUMBER_SIGN \<and> c \<noteq> QUESTION_MARK) target"

text \<open>
  The route \<open>/upload/:siteId\<close> of \<open>App\<close> matches a path name that is \<open>/upload/\<close>
  (in any letter case), one non-empty segment without a solidus, and trailing solidi
  only. \<open>route_siteId\<close> is the segment, the text that \<open>useParams\<close> decodes into
  \<open>siteId\<close>; there is none when the route does not match.
\<close>

definition route_siteId :: "jsstring \<Rightarrow> jsstring option" where
  "route_siteId target =
     (let pathname = parsePath_pathname target;
          rest = drop 8 pathname;
          segment = takeWhile (\<lambda>c. c \<noteq> SOLIDUS) rest
      in if toLowerCase (take 8 pathname) = js ''/upload/'' \<and> segment \<noteq> []
            \<and> list_all (\<lambda>c. c = SOLIDUS) (dropWhile (\<lambda>c. c \<noteq> SOLIDUS) rest)
         then Some segment else None)"

section \<open>The rendered preview is a safe, non-empty file name\<close>

lemma allowed_sanitize: "c \<in> set (sanitize s) \<Longrightarrow> allowed c"
  by (auto simp: sanitize_def allowed_def)

text \<open>
  Claim C1. For every naming format, site id and category, the file name rendered by
  \<open>getPreviewFilename\<close> consists of code units of \<open>[A-Za-z0-9_-.]\<close> only and is not
  empty.
\<close>

theorem C1_preview_filename_safe:
  "list_all (\<lambda>c. allowed c \<or> c = FULL_STOP) (getPreviewFilename st)
   \<and> getPreviewFilename st \<noteq> []"
proof
  have "set (js ''.jpg'') \<subseteq> {c. allowed c \<or> c = FULL_STOP}"
    by (simp add: js_def allowed_def)
  then show "list_all (\<lambda>c. allowed c \<or> c = FULL_STOP) (getPreviewFilename st)"
    by (auto simp: getPreviewFilename_def list_all_iff dest: allowed_sanitize)
  show "getPreviewFilename st \<noteq> []"
    by (simp add: getPreviewFilename_def js_def)
qed

section \<open>Replacements that do not interact\<close>

text \<open>
  A replacement without a dollar is inserted as it is, and a scan passes over text
  without a left brace unchanged. From these, one more replacement after a simultaneous
  substitution is the simultaneous substitution with one more rule, so independent rules
  give the same result one after the other, in any order, as all at once.
\<close>

lemma GetSubstitution_plain:
  "DOLLAR \<notin> set r \<Longrightarrow> GetSubstitution m p f r = r"
  by (induction m p f r rule: GetSubstitution.induct) auto

lemma replace_from_match:
  "pat \<noteq> [] \<Longrightarrow> DOLLAR \<notin> set r \<Longrightarrow>
   replace_from pat r seen (pat @ s) = r @ replace_from pat r (seen @ pat) s"
  by (cases pat) (simp_all add: GetSubstitution_plain)

lemma replace_from_skip:
  "hd pat = LBRACE \<Longrightarrow> LBRACE \<notin> set z \<Longrightarrow>
   replace_from pat r seen (z @ s) = z @ replace_from pat r (seen @ z) s"
  by (induction z arbitrary: seen) (auto simp: prefix_Cons neq_Nil_conv)

lemma no_clash_hd: "r \<noteq> [] \<Longrightarrow> hd r \<notin> set x \<Longrightarrow> no_clash x r"
  by (induction x) (auto simp: prefix_Cons neq_Nil_conv)

lemma simultaneous_skip:
  "\<forall>(pat, v) \<in> set rules. hd pat = LBRACE \<Longrightarrow> LBRACE \<notin> set z \<Longrightarrow>
   simultaneous rules (z @ s) = z @ simultaneous rules s"
proof (induction z)
  case Nil
  then show ?case by simp
next
  case (Cons a z)
  have "find (starts (a # z @ s)) rules = None"
    using Cons.prems by (auto simp: find_None_iff starts_def prefix_Cons neq_Nil_conv)
  with Cons show ?case by simp
qed

lemma prefix_simultaneous:
  "\<forall>(pat, v) \<in> set rules. v \<noteq> [] \<and> no_clash x v \<Longrightarrow>
   prefix x (simultaneous rules s) \<Longrightarrow> prefix x s"
proof (induction rules s arbitrary: x rule: simultaneous.induct)
  case (1 rules)
  then show ?case by simp
next
  case (2 rules c cs)
  show ?case
  proof (cases x)
    case Nil
    then show ?thesis by simp
  next
    case (Cons a x')
    show ?thesis
    proof (cases "find (starts (c # cs)) rules")
      case None
      with "2.prems" Cons have a: "a = c" and p: "prefix x' (simultaneous rules cs)"
        by auto
      from "2.prems"(1) Cons have "\<forall>(pat, v) \<in> set rules. v \<noteq> [] \<and> no_clash x' v"
        by auto
      from "2.IH"(1)[OF None this p] a Cons show ?thesis by simp
    next
      case (Some pv)
      obtain pat v where pv: "pv = (pat, v)" by (cases pv)
      with Some have "(pat, v) \<in> set rules"
        by (auto simp: find_Some_iff in_set_conv_nth)
      with "2.prems"(1) Cons have nc: "\<not> prefix x v" "\<not> prefix v x"
        by auto
      from "2.prems"(2) Some pv
      have "prefix x (v @ simultaneous rules (drop (length pat) (c # cs)))"
        by simp
      then have "prefix x v \<or> prefix v x"
        by (auto simp: prefix_append)
      with nc show ?thesis by simp
    qed
  qed
qed

lemma find_append:
  "find P (xs @ ys) = (case find P xs of None \<Rightarrow> find P ys | Some x \<Rightarrow> Some x)"
  by (induction xs) simp_all

text \<open>One more pass after a simultaneous substitution.\<close>

lemma replace_after_simultaneous:
  assumes shape: "\<forall>(pat, v) \<in> set rules. hd pat = LBRACE"
    and p: "braced p" and r: "DOLLAR \<notin> set r"
    and vals: "\<forall>(pat, v) \<in> set rules. v \<noteq> [] \<and> LBRACE \<notin> set v \<and> no_clash (tl p) v"
  shows "replace_from p r seen (simultaneous rules s) = simultaneous (rules @ [(p, r)]) s"
proof (induction s arbitrary: seen rule: length_induct)
  case (1 s)
  note IH = "1.IH"[rule_format]
  from p have p_ne: "p \<noteq> []" and p_hd: "hd p = LBRACE" and p_tl: "LBRACE \<notin> set (tl p)"
    by (simp_all add: braced_def)
  show ?case
  proof (cases s)
    case Nil
    then show ?thesis by simp
  next
    case (Cons c cs)
    show ?thesis
    proof (cases "find (starts (c # cs)) rules")
      case (Some pv)
      obtain pat v where pv: "pv = (pat, v)" by (cases pv)
      from Some pv have mem: "(pat, v) \<in> set rules" and st: "starts (c # cs) (pat, v)"
        by (auto simp: find_Some_iff in_set_conv_nth)
      from st have len: "length (drop (length pat) (c # cs)) < length s"
        by (auto simp: starts_def Cons neq_Nil_conv)
      from mem vals have v: "LBRACE \<notin> set v" by auto
      have "replace_from p r seen (simultaneous rules s)
          = v @ replace_from p r (seen @ v) (simultaneous rules (drop (length pat) (c # cs)))"
        using Some pv Cons by (simp add: replace_from_skip[OF p_hd v])
      also have "\<dots> = v @ simultaneous (rules @ [(p, r)]) (drop (length pat) (c # cs))"
        using IH[OF len] by simp
      also have "\<dots> = simultaneous (rules @ [(p, r)]) s"
        using Some pv Cons by (simp add: find_append)
      finally show ?thesis .
    next
      case None
      show ?thesis
      proof (cases "prefix p (c # cs)")
        case True
        define rest where "rest = drop (length p) (c # cs)"
        from True have rest: "c # cs = p @ rest"
          by (auto simp: prefix_def rest_def)
        with p_ne p_hd have c: "c = LBRACE" and cs: "cs = tl p @ rest"
          by (cases p; simp)+
        have len: "length rest < length s"
          using rest p_ne Cons by (metis length_append length_greater_0_conv less_add_same_cancel2)
        have "simultaneous rules s = c # tl p @ simultaneous rules rest"
          using None Cons cs by (simp add: simultaneous_skip[OF shape p_tl])
        also have "\<dots> = p @ simultaneous rules rest"
          using c p_ne p_hd by (cases p) simp_all
        finally have "replace_from p r seen (simultaneous rules s)
            = r @ replace_from p r (seen @ p) (simultaneous rules rest)"
          by (simp add: replace_from_match[OF p_ne r])
        also have "\<dots> = r @ simultaneous (rules @ [(p, r)]) rest"
          using IH[OF len] by simp
        also have "\<dots> = simultaneous (rules @ [(p, r)]) s"
          using None True p_ne Cons by (simp add: find_append starts_def rest_def)
        finally show ?thesis .
      next
        case False
        have np: "\<not> prefix p (c # simultaneous rules cs)"
        proof
          assume a: "prefix p (c # simultaneous rules cs)"
          with p_ne p_hd have c: "c = LBRACE" and t: "prefix (tl p) (simultaneous rules cs)"
            by (cases p; simp)+
          have "\<forall>(pat, v) \<in> set rules. v \<noteq> [] \<and> no_clash (tl p) v"
            using vals by auto
          from prefix_simultaneous[OF this t] have "prefix (tl p) cs" .
          with c p_ne p_hd have "prefix p (c # cs)"
            by (cases p) simp_all
          with False show False by simp
        qed
        have len: "length cs < length s" using Cons by simp
        have "replace_from p r seen (simultaneous rules s)
            = c # replace_from p r (seen @ [c]) (simultaneous rules cs)"
          using None Cons np by simp
        also have "\<dots> = c # simultaneous (rules @ [(p, r)]) cs"
          using IH[OF len] by simp
        also have "\<dots> = simultaneous (rules @ [(p, r)]) s"
          using None False Cons by (simp add: find_append starts_def)
        finally show ?thesis .
      qed
    qed
  qed
qed

lemma independent_butlast: "independent (rules @ [x]) \<Longrightarrow> independent rules"
  by (simp add: independent_def)

lemma independent_shape:
  "independent rules \<Longrightarrow> (pat, v) \<in> set rules \<Longrightarrow> braced pat \<and> plain v"
  unfolding independent_def by force

lemma independent_pair:
  "independent rules \<Longrightarrow> (pat, v) \<in> set rules \<Longrightarrow> (pat', v') \<in> set rules \<Longrightarrow>
   pat \<noteq> pat' \<Longrightarrow> \<not> prefix pat pat' \<and> no_clash (tl pat) v'"
  unfolding independent_def by force

lemma independent_distinct: "independent rules \<Longrightarrow> distinct (map fst rules)"
  by (simp add: independent_def)

lemma sequential_snoc:
  "sequential (rules @ [(p, r)]) s = replace_global p r (sequential rules s)"
  by (simp add: sequential_def)

lemma sequential_simultaneous:
  "independent rules \<Longrightarrow> sequential rules s = simultaneous rules s"
proof (induction rules rule: rev_induct)
  case Nil
  have "simultaneous [] s = s" for s :: jsstring
    by (induction s) simp_all
  then show ?case by (simp add: sequential_def)
next
  case (snoc x rules)
  obtain p r where x: "x = (p, r)" by (cases x)
  from snoc.prems have ind: "independent rules" by (rule independent_butlast)
  from independent_shape[OF snoc.prems, of p r] x
  have p: "braced p" and r: "DOLLAR \<notin> set r"
    by (simp_all add: plain_def)
  have shape: "\<forall>(pat, v) \<in> set rules. hd pat = LBRACE"
    using independent_shape[OF ind] by (auto simp: braced_def)
  have vals: "\<forall>(pat, v) \<in> set rules. v \<noteq> [] \<and> LBRACE \<notin> set v \<and> no_clash (tl p) v"
  proof (clarify, intro conjI)
    fix pat v assume mem: "(pat, v) \<in> set rules"
    from independent_shape[OF ind mem] show "v \<noteq> []" "LBRACE \<notin> set v"
      by (simp_all add: plain_def)
    from mem independent_distinct[OF snoc.prems] x have "p \<noteq> pat"
      by (auto simp: image_iff)
    with independent_pair[OF snoc.prems, of p r pat v] mem x show "no_clash (tl p) v"
      by simp
  qed
  show ?case
    using snoc.IH[OF ind] replace_after_simultaneous[OF shape p r vals, of "[]" s]
    by (simp add: x sequential_snoc replace_global_def)
qed

lemma find_unique:
  assumes "set xs = set ys"
    and "\<And>x y. x \<in> set xs \<Longrightarrow> y \<in> set xs \<Longrightarrow> P x \<Longrightarrow> P y \<Longrightarrow> x = y"
  shows "find P xs = find P ys"
proof (cases "find P xs")
  case None
  with assms(1) have "find P ys = None" by (auto simp: find_None_iff)
  with None show ?thesis by simp
next
  case (Some x)
  then have x: "x \<in> set xs" "P x"
    by (auto simp: find_Some_iff in_set_conv_nth)
  with assms(1) have "find P ys \<noteq> None" by (auto simp: find_None_iff)
  then obtain y where y: "find P ys = Some y" by auto
  then have "y \<in> set ys" "P y" by (auto simp: find_Some_iff in_set_conv_nth)
  with assms x have "x = y" by auto
  with Some y show ?thesis by simp
qed

lemma starts_unique:
  assumes "independent rules" "x \<in> set rules" "y \<in> set rules" "starts s x" "starts s y"
  shows "x = y"
proof -
  obtain p v p' v' where xy: "x = (p, v)" "y = (p', v')" by (cases x, cases y)
  with assms(4,5) have "prefix p s" "prefix p' s" by (auto simp: starts_def)
  then have "prefix p p' \<or> prefix p' p" by (rule prefix_same_cases)
  with independent_pair[OF assms(1), of p v p' v'] independent_pair[OF assms(1), of p' v' p v]
    assms(2,3) xy
  have "p = p'" by blast
  with independent_distinct[OF assms(1)] assms(2,3) xy show ?thesis
    by (auto dest: eq_key_imp_eq_value)
qed

lemma simultaneous_reorder:
  assumes "independent rules" "set rules' = set rules"
  shows "simultaneous rules' s = simultaneous rules s"
proof (induction s rule: length_induct)
  case (1 s)
  note IH = "1.IH"[rule_format]
  show ?case
  proof (cases s)
    case Nil
    then show ?thesis by simp
  next
    case (Cons c cs)
    have f: "find (starts (c # cs)) rules' = find (starts (c # cs)) rules"
      using assms(2) starts_unique[OF assms(1)] by (intro find_unique) auto
    show ?thesis
    proof (cases "find (starts (c # cs)) rules")
      case None
      with f Cons IH[of cs] show ?thesis by simp
    next
      case (Some pv)
      obtain pat v where pv: "pv = (pat, v)" by (cases pv)
      from Some pv have "starts (c # cs) (pat, v)"
        by (auto simp: find_Some_iff)
      then have "length (drop (length pat) (c # cs)) < length s"
        by (auto simp: starts_def Cons neq_Nil_conv)
      from IH[OF this] Some pv f Cons show ?thesis by simp
    qed
  qed
qed

lemma independent_reorder:
  "independent rules \<Longrightarrow> set rules' = set rules \<Longrightarrow> distinct (map fst rules') \<Longrightarrow> independent rules'"
  by (simp add: independent_def)

lemma any_order:
  assumes "independent rules" "set rules' = set rules" "distinct (map fst rules')"
  shows "sequential rules' s = simultaneous rules s"
  using sequential_simultaneous[OF independent_reorder[OF assms]]
    simultaneous_reorder[OF assms(1,2)] by simp


lemma pats_braced:
  "braced pat_site_id" "braced pat_category" "braced pat_component_name"
  by (simp_all add: braced_def pat_site_id_def pat_category_def pat_component_name_def js_def)

lemma pats_apart:
  "pat_site_id \<noteq> pat_category" "pat_site_id \<noteq> pat_component_name"
  "pat_category \<noteq> pat_component_name"
  "\<not> prefix pat_site_id pat_category" "\<not> prefix pat_category pat_site_id"
  "\<not> prefix pat_site_id pat_component_name" "\<not> prefix pat_component_name pat_site_id"
  "\<not> prefix pat_category pat_component_name" "\<not> prefix pat_component_name pat_category"
  by (simp_all add: pat_site_id_def pat_category_def pat_component_name_def js_def)

lemma sample_component_plain:
  "plain (js ''Antenna_Front_View'')"
  "no_clash (tl pat_site_id) (js ''Antenna_Front_View'')"
  "no_clash (tl pat_category) (js ''Antenna_Front_View'')"
  by (simp_all add: plain_def pat_site_id_def pat_category_def js_def)

lemma category_plain:
  assumes "c \<in> set categories"
  shows "plain c" "no_clash (tl pat_site_id) c" "no_clash (tl pat_component_name) c"
  using assms
  by (auto simp: categories_def plain_def pat_site_id_def pat_component_name_def js_def)

lemma preview_independent:
  assumes "plain (siteId st)" "no_clash (tl pat_category) (siteId st)"
    "no_clash (tl pat_component_name) (siteId st)" "activeCategory st \<in> set categories"
  shows "independent (preview_rules st)"
  using assms pats_braced pats_apart sample_component_plain category_plain[OF assms(4)]
  by (simp add: independent_def preview_rules_def)

lemma substitute_sequential:
  "substitute st = sequential (preview_rules st) (editableNamingFormat st)"
  by (simp add: substitute_def sequential_def preview_rules_def)

lemmas evaluation = js_def pat_site_id_def pat_category_def pat_component_name_def initial_page_def
  substitute_def replace_global_def preview_rules_def sequential_def starts_def

text \<open>
  Claim C2, as amended. The page replaces \<open>{site_id}\<close>, then \<open>{category}\<close>, then
  \<open>{component_name}\<close>, each over the whole text and with the dollar references of the
  replacement expanded. When the site id is not empty, has no dollar and no left brace
  and cannot complete the body of another placeholder, and the category is one of the
  three of the page, the result is the simultaneous substitution of the three
  placeholders by their values, and replacing in any other order gives the same text.
\<close>

theorem C2_substitution_order_free:
  assumes "plain (siteId st)" "no_clash (tl pat_category) (siteId st)"
    "no_clash (tl pat_component_name) (siteId st)" "activeCategory st \<in> set categories"
    and "set rules = set (preview_rules st)" "distinct (map fst rules)"
  shows "substitute st = simultaneous (preview_rules st) (editableNamingFormat st)
       \<and> sequential rules (editableNamingFormat st) = substitute st"
proof -
  have ind: "independent (preview_rules st)"
    using assms(1-4) by (rule preview_independent)
  have "substitute st = simultaneous (preview_rules st) (editableNamingFormat st)"
    using sequential_simultaneous[OF ind] by (simp add: substitute_sequential)
  moreover have "sequential rules (editableNamingFormat st)
      = simultaneous (preview_rules st) (editableNamingFormat st)"
    using ind assms(5,6) by (rule any_order)
  ultimately show ?thesis by simp
qed

theorem C2_substitution_order_free_witness:
  "substitute ((initial_page (js ''SITE-1''))\<lparr>editableNamingFormat := js ''{category}/{site_id}''\<rparr>)
     = js ''alpha/SITE-1''
   \<and> sequential [(pat_component_name, js ''Antenna_Front_View''), (pat_category, js ''alpha''),
        (pat_site_id, js ''SITE-1'')] (js ''{category}/{site_id}'') = js ''alpha/SITE-1''"
  using C2_substitution_order_free[of
      "(initial_page (js ''SITE-1''))\<lparr>editableNamingFormat := js ''{category}/{site_id}''\<rparr>"
      "[(pat_component_name, js ''Antenna_Front_View''), (pat_category, js ''alpha''),
        (pat_site_id, js ''SITE-1'')]"]
  by (simp add: evaluation plain_def categories_def)

text \<open>
  The claim without the side conditions fails: a site id \<open>{category}\<close> is itself replaced
  by the second pass, so the result depends on the order, and a site id \<open>$&\<close> is expanded
  to the matched placeholder.
\<close>

theorem C2_counterexample:
  "substitute ((initial_page (js ''{category}''))\<lparr>editableNamingFormat := js ''{site_id}''\<rparr>)
     \<noteq> simultaneous
         (preview_rules ((initial_page (js ''{category}''))\<lparr>editableNamingFormat := js ''{site_id}''\<rparr>))
         (js ''{site_id}'')
   \<and> substitute ((initial_page (js ''{category}''))\<lparr>editableNamingFormat := js ''{site_id}''\<rparr>)
     = js ''alpha''
   \<and> sequential [(pat_category, js ''alpha''), (pat_site_id, js ''{category}''),
        (pat_component_name, js ''Antenna_Front_View'')] (js ''{site_id}'') = js ''{category}''
   \<and> substitute ((initial_page (js ''$&''))\<lparr>editableNamingFormat := js ''{site_id}''\<rparr>)
     = js ''{site_id}''
   \<and> simultaneous
         (preview_rules ((initial_page (js ''$&''))\<lparr>editableNamingFormat := js ''{site_id}''\<rparr>))
         (js ''{site_id}'') = js ''$&''"
  by (simp add: evaluation)

section \<open>Unrecognised placeholders\<close>

lemma closed_pat_form:
  assumes "closed_pat p"
  obtains m where "p = LBRACE # m @ [RBRACE]" "RBRACE \<notin> set m" "LBRACE \<notin> set m"
proof -
  from assms obtain q where q: "p = LBRACE # q" "q \<noteq> []" "last q = RBRACE"
    "LBRACE \<notin> set q" "RBRACE \<notin> set (butlast q)"
    by (auto simp: closed_pat_def split: list.splits)
  from q(2,3) have "q = butlast q @ [RBRACE]"
    by (metis append_butlast_last_id)
  moreover from q(4) have "LBRACE \<notin> set (butlast q)"
    by (auto dest: in_set_butlastD)
  ultimately show thesis using q(1,5) that by blast
qed

lemma closed_pat_braced: "closed_pat p \<Longrightarrow> braced p"
  by (auto simp: closed_pat_def braced_def split: list.splits)

lemma prefix_into_brace:
  assumes "braced p" "x \<noteq> []" "prefix p (x @ LBRACE # z)"
  shows "prefix p x"
proof (rule ccontr)
  assume np: "\<not> prefix p x"
  with assms(3) obtain us where us: "p = x @ us" "prefix us (LBRACE # z)"
    by (auto simp: prefix_append)
  with np have "us \<noteq> []" by auto
  with us(2) obtain us' where "us = LBRACE # us'" by (cases us) auto
  with us(1) assms(2) have "LBRACE \<in> set (tl p)" by (cases x) auto
  with assms(1) show False by (simp add: braced_def)
qed

lemma same_stop:
  assumes "prefix (m @ [a]) (n @ a # y)" "a \<notin> set m" "a \<notin> set n"
  shows "m = n"
  using assms
proof (induction m arbitrary: n)
  case Nil
  then show ?case by (cases n) auto
next
  case (Cons b m)
  then show ?case by (cases n) auto
qed

lemma token_not_matched:
  assumes p: "closed_pat p" and n: "LBRACE \<notin> set n" "RBRACE \<notin> set n"
    and ne: "p \<noteq> LBRACE # n @ [RBRACE]"
  shows "\<not> prefix p (LBRACE # n @ RBRACE # y)"
proof
  assume a: "prefix p (LBRACE # n @ RBRACE # y)"
  from p obtain m where m: "p = LBRACE # m @ [RBRACE]" "RBRACE \<notin> set m"
    by (rule closed_pat_form)
  with a have "prefix (m @ [RBRACE]) (n @ RBRACE # y)" by simp
  from same_stop[OF this m(2) n(2)] m(1) ne show False by simp
qed

lemma replace_from_keeps_token:
  assumes p: "closed_pat p" and n: "LBRACE \<notin> set n" "RBRACE \<notin> set n"
    and ne: "p \<noteq> LBRACE # n @ [RBRACE]"
  shows "\<exists>x' y'. replace_from p r seen (x @ LBRACE # n @ RBRACE # y) = x' @ LBRACE # n @ RBRACE # y'"
proof (induction x arbitrary: seen rule: length_induct)
  case (1 x)
  note IH = "1.IH"[rule_format]
  from closed_pat_braced[OF p] have br: "braced p" and hd: "hd p = LBRACE"
    by (simp_all add: braced_def)
  show ?case
  proof (cases x)
    case Nil
    have "LBRACE \<notin> set (n @ [RBRACE])" using n by simp
    from replace_from_skip[OF hd this, of r _ y] token_not_matched[OF p n ne, of y]
    have "replace_from p r seen (LBRACE # n @ RBRACE # y)
        = [] @ LBRACE # n @ RBRACE # replace_from p r ((seen @ [LBRACE]) @ n @ [RBRACE]) y"
      by simp
    with Nil show ?thesis by (metis append_Nil)
  next
    case (Cons c x1)
    show ?thesis
    proof (cases "prefix p (x @ LBRACE # n @ RBRACE # y)")
      case True
      from prefix_into_brace[OF br _ True] Cons have "prefix p x" by simp
      then obtain x2 where x2: "x = p @ x2" by (auto simp: prefix_def)
      from br have pne: "p \<noteq> []" by (simp add: braced_def)
      with x2 have "length x2 < length x" by simp
      from IH[OF this, of "seen @ p"] obtain x' y' where
        "replace_from p r (seen @ p) (x2 @ LBRACE # n @ RBRACE # y) = x' @ LBRACE # n @ RBRACE # y'"
        by blast
      moreover have "replace_from p r seen (x @ LBRACE # n @ RBRACE # y)
        = GetSubstitution p seen (x2 @ LBRACE # n @ RBRACE # y) r
          @ replace_from p r (seen @ p) (x2 @ LBRACE # n @ RBRACE # y)"
        using pne x2 by (cases p) simp_all
      ultimately have "replace_from p r seen (x @ LBRACE # n @ RBRACE # y)
        = (GetSubstitution p seen (x2 @ LBRACE # n @ RBRACE # y) r @ x') @ LBRACE # n @ RBRACE # y'"
        by simp
      then show ?thesis by blast
    next
      case False
      have "length x1 < length x" using Cons by simp
      from IH[OF this, of "seen @ [c]"] obtain x' y' where
        "replace_from p r (seen @ [c]) (x1 @ LBRACE # n @ RBRACE # y) = x' @ LBRACE # n @ RBRACE # y'"
        by blast
      with False Cons have "replace_from p r seen (x @ LBRACE # n @ RBRACE # y)
        = (c # x') @ LBRACE # n @ RBRACE # y'"
        by simp
      then show ?thesis by blast
    qed
  qed
qed

lemma closed_pats:
  "closed_pat pat_site_id" "closed_pat pat_category" "closed_pat pat_component_name"
  by (simp_all add: closed_pat_def pat_site_id_def pat_category_def
      pat_component_name_def js_def)

lemma sanitize_append: "sanitize (a @ b) = sanitize a @ sanitize b"
  by (simp add: sanitize_def)



lemma replace_from_seen:
  "DOLLAR \<notin> set r \<Longrightarrow> replace_from p r seen s = replace_from p r seen' s"
proof (induction p r seen s arbitrary: seen' rule: replace_from.induct)
  case (1 pat repl seen)
  then show ?case by simp
next
  case (2 pat repl seen c cs)
  show ?case
  proof (cases "pat \<noteq> [] \<and> prefix pat (c # cs)")
    case True
    with "2.IH"(1)[OF True "2.prems", of "seen' @ pat"] "2.prems" show ?thesis
      by (simp add: GetSubstitution_plain)
  next
    case False
    with "2.IH"(2)[OF False "2.prems", of "seen' @ [c]"] show ?thesis
      by auto
  qed
qed

lemma replace_from_around_token:
  assumes p: "closed_pat p" and n: "LBRACE \<notin> set n" "RBRACE \<notin> set n"
    and ne: "p \<noteq> LBRACE # n @ [RBRACE]" and r: "DOLLAR \<notin> set r"
  shows "replace_from p r seen (x @ LBRACE # n @ RBRACE # y)
       = replace_from p r seen x @ LBRACE # n @ RBRACE # replace_from p r seen y"
proof (induction x arbitrary: seen rule: length_induct)
  case (1 x)
  note IH = "1.IH"[rule_format]
  from closed_pat_braced[OF p] have br: "braced p" and hd: "hd p = LBRACE" and pne: "p \<noteq> []"
    by (simp_all add: braced_def)
  show ?case
  proof (cases x)
    case Nil
    have "LBRACE \<notin> set (n @ [RBRACE])" using n by simp
    from replace_from_skip[OF hd this, of r _ y] token_not_matched[OF p n ne, of y]
    have "replace_from p r seen (LBRACE # n @ RBRACE # y)
        = LBRACE # n @ RBRACE # replace_from p r ((seen @ [LBRACE]) @ n @ [RBRACE]) y"
      by simp
    with Nil replace_from_seen[OF r, of p "(seen @ [LBRACE]) @ n @ [RBRACE]" y seen]
    show ?thesis by simp
  next
    case (Cons c x1)
    show ?thesis
    proof (cases "prefix p (x @ LBRACE # n @ RBRACE # y)")
      case True
      from prefix_into_brace[OF br _ True] Cons have "prefix p x" by simp
      then obtain x2 where x2: "x = p @ x2" by (auto simp: prefix_def)
      with pne have len: "length x2 < length x" by simp
      have "replace_from p r seen (x @ LBRACE # n @ RBRACE # y)
          = r @ replace_from p r (seen @ p) (x2 @ LBRACE # n @ RBRACE # y)"
        using replace_from_match[OF pne r, of seen "x2 @ LBRACE # n @ RBRACE # y"] x2 by simp
      also have "\<dots> = r @ replace_from p r (seen @ p) x2
          @ LBRACE # n @ RBRACE # replace_from p r (seen @ p) y"
        using IH[OF len, of "seen @ p"] by simp
      also have "\<dots> = replace_from p r seen x @ LBRACE # n @ RBRACE # replace_from p r seen y"
        using replace_from_match[OF pne r, of seen x2] x2
          replace_from_seen[OF r, of p "seen @ p" y seen] by simp
      finally show ?thesis .
    next
      case False
      then have nx: "\<not> prefix p x" by (auto simp: prefix_def)
      have len: "length x1 < length x" using Cons by simp
      have "replace_from p r seen (x @ LBRACE # n @ RBRACE # y)
          = c # replace_from p r (seen @ [c]) (x1 @ LBRACE # n @ RBRACE # y)"
        using False Cons by simp
      also have "\<dots> = c # replace_from p r (seen @ [c]) x1
          @ LBRACE # n @ RBRACE # replace_from p r (seen @ [c]) y"
        using IH[OF len, of "seen @ [c]"] by simp
      also have "\<dots> = replace_from p r seen x @ LBRACE # n @ RBRACE # replace_from p r seen y"
        using nx Cons replace_from_seen[OF r, of p "seen @ [c]" y seen] by simp
      finally show ?thesis .
    qed
  qed
qed

lemma sanitize_Cons: "sanitize (c # s) = (if allowed c then c else LOW_LINE) # sanitize s"
  by (simp add: sanitize_def)

text \<open>
  Claim C3. A token \<open>{name}\<close> whose name has no brace and is none of \<open>site_id\<close>,
  \<open>category\<close>, \<open>component_name\<close> survives the three replacements where it stands,
  whatever the site id and the category are. In the file name each of its braces is a
  low line, and each code unit of its name is kept when it is a letter \<open>a-z\<close> or
  \<open>A-Z\<close>, a digit, a low line or a hyphen, and is a low line otherwise. When the site
  id and the category have no dollar, the text in front of the token and the text behind
  it are substituted as they would be on their own. The functions are total: no format
  makes the rendering fail.
\<close>

theorem C3_unrecognized_token_kept:
  assumes "LBRACE \<notin> set name" "RBRACE \<notin> set name"
    and "name \<notin> {js ''site_id'', js ''category'', js ''component_name''}"
    and "editableNamingFormat st = before @ [LBRACE] @ name @ [RBRACE] @ after"
  shows "(\<exists>before' after'.
          substitute st = before' @ [LBRACE] @ name @ [RBRACE] @ after'
          \<and> getPreviewFilename st
              = sanitize before' @ [LOW_LINE]
                @ map (\<lambda>c. if (0x61 \<le> c \<and> c \<le> 0x7A) \<or> (0x41 \<le> c \<and> c \<le> 0x5A)
                               \<or> (0x30 \<le> c \<and> c \<le> 0x39) \<or> c = LOW_LINE \<or> c = HYPHEN
                            then c else LOW_LINE) name
                @ [LOW_LINE] @ sanitize after' @ js ''.jpg'')
       \<and> (DOLLAR \<notin> set (siteId st) \<and> DOLLAR \<notin> set (activeCategory st) \<longrightarrow>
            substitute st
              = substitute (st\<lparr>editableNamingFormat := before\<rparr>) @ [LBRACE] @ name @ [RBRACE]
                @ substitute (st\<lparr>editableNamingFormat := after\<rparr>)
            \<and> getPreviewFilename st
              = sanitize (substitute (st\<lparr>editableNamingFormat := before\<rparr>)) @ [LOW_LINE]
                @ map (\<lambda>c. if (0x61 \<le> c \<and> c \<le> 0x7A) \<or> (0x41 \<le> c \<and> c \<le> 0x5A)
                               \<or> (0x30 \<le> c \<and> c \<le> 0x39) \<or> c = LOW_LINE \<or> c = HYPHEN
                            then c else LOW_LINE) name
                @ [LOW_LINE] @ sanitize (substitute (st\<lparr>editableNamingFormat := after\<rparr>))
                @ js ''.jpg'')"
proof -
  let ?T = "\<lambda>y. LBRACE # name @ RBRACE # y"
  let ?m = "map (\<lambda>c. if (0x61 \<le> c \<and> c \<le> 0x7A) \<or> (0x41 \<le> c \<and> c \<le> 0x5A)
                        \<or> (0x30 \<le> c \<and> c \<le> 0x39) \<or> c = LOW_LINE \<or> c = HYPHEN
                     then c else LOW_LINE) name"
  from assms(3) have ne: "pat_site_id \<noteq> ?T []" "pat_category \<noteq> ?T []" "pat_component_name \<noteq> ?T []"
    by (auto simp: pat_site_id_def pat_category_def pat_component_name_def js_def)
  have brace: "\<not> allowed LBRACE" "\<not> allowed RBRACE" by (simp_all add: allowed_def)
  have name: "sanitize name = ?m" by (simp add: sanitize_def allowed_def)
  have render: "sanitize (x @ [LBRACE] @ name @ [RBRACE] @ y) @ js ''.jpg''
      = sanitize x @ [LOW_LINE] @ ?m @ [LOW_LINE] @ sanitize y @ js ''.jpg''" for x y
    using brace by (simp add: sanitize_append sanitize_Cons name)
  have first: "\<exists>before' after'.
      substitute st = before' @ [LBRACE] @ name @ [RBRACE] @ after'
      \<and> getPreviewFilename st
          = sanitize before' @ [LOW_LINE] @ ?m @ [LOW_LINE] @ sanitize after' @ js ''.jpg''"
  proof -
    from replace_from_keeps_token[OF closed_pats(1) assms(1,2) ne(1), of "siteId st" "[]" before after]
    obtain x1 y1 where s1: "replace_global pat_site_id (siteId st) (editableNamingFormat st) = x1 @ ?T y1"
      by (auto simp: replace_global_def assms(4))
    from replace_from_keeps_token[OF closed_pats(2) assms(1,2) ne(2), of "activeCategory st" "[]" x1 y1]
    obtain x2 y2 where s2: "replace_global pat_category (activeCategory st) (x1 @ ?T y1) = x2 @ ?T y2"
      by (auto simp: replace_global_def)
    from replace_from_keeps_token[OF closed_pats(3) assms(1,2) ne(3), of "js ''Antenna_Front_View''" "[]" x2 y2]
    obtain x3 y3 where s3: "replace_global pat_component_name (js ''Antenna_Front_View'') (x2 @ ?T y2) = x3 @ ?T y3"
      by (auto simp: replace_global_def)
    have sub: "substitute st = x3 @ [LBRACE] @ name @ [RBRACE] @ y3"
      by (simp add: substitute_def s1 s2 s3)
    have "getPreviewFilename st
        = sanitize x3 @ [LOW_LINE] @ ?m @ [LOW_LINE] @ sanitize y3 @ js ''.jpg''"
      unfolding getPreviewFilename_def sub by (rule render)
    with sub show ?thesis by blast
  qed
  have second: "substitute st
        = substitute (st\<lparr>editableNamingFormat := before\<rparr>) @ [LBRACE] @ name @ [RBRACE]
          @ substitute (st\<lparr>editableNamingFormat := after\<rparr>)
      \<and> getPreviewFilename st
        = sanitize (substitute (st\<lparr>editableNamingFormat := before\<rparr>)) @ [LOW_LINE] @ ?m
          @ [LOW_LINE] @ sanitize (substitute (st\<lparr>editableNamingFormat := after\<rparr>)) @ js ''.jpg''"
    if d: "DOLLAR \<notin> set (siteId st) \<and> DOLLAR \<notin> set (activeCategory st)"
  proof -
    have d3: "DOLLAR \<notin> set (js ''Antenna_Front_View'')" by (simp add: js_def)
    note a1 = replace_from_around_token[OF closed_pats(1) assms(1,2) ne(1)]
    note a2 = replace_from_around_token[OF closed_pats(2) assms(1,2) ne(2)]
    note a3 = replace_from_around_token[OF closed_pats(3) assms(1,2) ne(3) d3]
    have sub: "substitute st
        = substitute (st\<lparr>editableNamingFormat := before\<rparr>) @ [LBRACE] @ name @ [RBRACE]
          @ substitute (st\<lparr>editableNamingFormat := after\<rparr>)"
      using d by (simp add: substitute_def replace_global_def assms(4) a1 a2 a3)
    have "getPreviewFilename st
        = sanitize (substitute (st\<lparr>editableNamingFormat := before\<rparr>)) @ [LOW_LINE] @ ?m
          @ [LOW_LINE] @ sanitize (substitute (st\<lparr>editableNamingFormat := after\<rparr>)) @ js ''.jpg''"
      unfolding getPreviewFilename_def[of st] sub by (rule render)
    with sub show ?thesis by simp
  qed
  from first second show ?thesis by blast
qed

theorem C3_unrecognized_token_kept_witness:
  "substitute ((initial_page (js ''SITE-1''))\<lparr>editableNamingFormat := js ''{site_id}-{my date}.{category}''\<rparr>)
     = js ''SITE-1-{my date}.alpha''
   \<and> getPreviewFilename ((initial_page (js ''SITE-1''))\<lparr>editableNamingFormat := js ''{site_id}-{my date}.{category}''\<rparr>)
     = js ''SITE-1-_my_date__alpha.jpg''"
  using C3_unrecognized_token_kept[of "js ''my date''"
      "(initial_page (js ''SITE-1''))\<lparr>editableNamingFormat := js ''{site_id}-{my date}.{category}''\<rparr>"
      "js ''{site_id}-''" "js ''.{category}''"]
  by (simp add: evaluation sanitize_def allowed_def)

section \<open>The extension of the preview\<close>

lemma sanitize_no_stop: "FULL_STOP \<notin> set (sanitize s)"
  by (auto simp: sanitize_def allowed_def)

lemma extension_of_append:
  assumes "FULL_STOP \<notin> set e"
  shows "extension_of (s @ FULL_STOP # e) = e"
proof -
  from assms have "takeWhile (\<lambda>c. c \<noteq> FULL_STOP) (rev e @ FULL_STOP # rev s) = rev e"
    by (subst takeWhile_append2) auto
  then show ?thesis by (simp add: extension_of_def)
qed

text \<open>
  Claim C4, as amended. What \<open>getPreviewFilename\<close> appends after sanitization is the
  constant \<open>.jpg\<close>: the sanitized text has no full stop, so the extension of the
  preview is \<open>jpg\<close> for every state of the page; no uploaded file enters the function.
\<close>

theorem C4_fixed_extension:
  "getPreviewFilename st = sanitize (substitute st) @ [FULL_STOP] @ js ''jpg''
   \<and> FULL_STOP \<notin> set (sanitize (substitute st))
   \<and> extension_of (getPreviewFilename st) = js ''jpg''"
proof -
  have a: "getPreviewFilename st = sanitize (substitute st) @ FULL_STOP # js ''jpg''"
    by (simp add: getPreviewFilename_def js_def)
  have "FULL_STOP \<notin> set (js ''jpg'')" by (simp add: js_def)
  from extension_of_append[OF this] a sanitize_no_stop show ?thesis by simp
qed

text \<open>For an upload \<open>photo.PNG\<close> the claim asks for the extension \<open>png\<close>.\<close>

theorem C4_counterexample:
  "extension_of (getPreviewFilename
      ((initial_page (js ''SITE-1''))\<lparr>editableNamingFormat := js ''{site_id}''\<rparr>))
   \<noteq> toLowerCase (extension_of (js ''photo.PNG''))"
  by (simp add: evaluation getPreviewFilename_def sanitize_def allowed_def extension_of_def toLowerCase_def)

section \<open>The preview and the renderer contract\<close>

text \<open>
  Claim C5, as amended. Under the side conditions of C2 on the site id and the category,
  the preview is the file name that the renderer contract gives for the format being
  edited, the bindings of the page with the sample component \<open>Antenna_Front_View\<close>,
  and an upload whose extension is \<open>jpg\<close> in any letter case.
\<close>

theorem C5_preview_refines_render:
  assumes "plain (siteId st)" "no_clash (tl pat_category) (siteId st)"
    "no_clash (tl pat_component_name) (siteId st)" "activeCategory st \<in> set categories"
    and "toLowerCase extension = js ''jpg''"
  shows "getPreviewFilename st
       = spec_render (editableNamingFormat st)
           \<lparr>bound_site = siteId st, bound_category = activeCategory st,
            bound_component = js ''Antenna_Front_View''\<rparr> extension"
proof -
  have "independent (preview_rules st)"
    using assms(1-4) by (rule preview_independent)
  from sequential_simultaneous[OF this]
  have "substitute st = simultaneous (preview_rules st) (editableNamingFormat st)"
    by (simp add: substitute_sequential)
  then show ?thesis
    by (simp add: getPreviewFilename_def spec_render_def preview_rules_def assms(5) js_def)
qed

theorem C5_preview_refines_render_witness:
  "getPreviewFilename
      ((initial_page (js ''SITE-1''))\<lparr>editableNamingFormat := js ''{site_id} {category} {component_name}''\<rparr>)
   = spec_render (js ''{site_id} {category} {component_name}'')
       \<lparr>bound_site = js ''SITE-1'', bound_category = js ''alpha'',
        bound_component = js ''Antenna_Front_View''\<rparr> (js ''JPG'')
   \<and> spec_render (js ''{site_id} {category} {component_name}'')
       \<lparr>bound_site = js ''SITE-1'', bound_category = js ''alpha'',
        bound_component = js ''Antenna_Front_View''\<rparr> (js ''JPG'')
     = js ''SITE-1_alpha_Antenna_Front_View.jpg''"
  using C5_preview_refines_render[of
      "(initial_page (js ''SITE-1''))\<lparr>editableNamingFormat := js ''{site_id} {category} {component_name}''\<rparr>"
      "js ''JPG''"]
  by (simp add: evaluation plain_def categories_def toLowerCase_def spec_render_def sanitize_def allowed_def)

text \<open>
  Without them the two drift: the preview knows neither the component nor the extension
  of an upload, and a site id \<open>{category}\<close> is replaced a second time by the preview only.
\<close>

theorem C5_counterexample:
  "getPreviewFilename ((initial_page (js ''SITE-1''))\<lparr>editableNamingFormat := js ''{component_name}''\<rparr>)
     = js ''Antenna_Front_View.jpg''
   \<and> spec_render (js ''{component_name}'')
       \<lparr>bound_site = js ''SITE-1'', bound_category = js ''alpha'', bound_component = js ''Tower''\<rparr>
       (js ''PNG'') = js ''Tower.png''
   \<and> getPreviewFilename ((initial_page (js ''{category}''))\<lparr>editableNamingFormat := js ''{site_id}''\<rparr>)
     = js ''alpha.jpg''
   \<and> spec_render (js ''{site_id}'')
       \<lparr>bound_site = js ''{category}'', bound_category = js ''alpha'',
        bound_component = js ''Antenna_Front_View''\<rparr>
       (js ''jpg'') = js ''_category_.jpg''"
  by (simp add: evaluation getPreviewFilename_def spec_render_def sanitize_def allowed_def toLowerCase_def)

section \<open>The list of component names is never emptied\<close>

lemma remove_at_enumerate:
  "map snd (filter (\<lambda>(i, _). i \<noteq> index) (enumerate n xs))
     = (if index < n then xs else take (index - n) xs @ drop (Suc (index - n)) xs)"
proof (induction xs arbitrary: n)
  case Nil
  then show ?case by simp
next
  case (Cons x xs)
  show ?case
  proof (cases "index < Suc n")
    case True
    then show ?thesis using Cons[of "Suc n"] by (cases "index = n") auto
  next
    case False
    then have "index - n = Suc (index - Suc n)" by simp
    with False show ?thesis using Cons[of "Suc n"] by simp
  qed
qed

lemma remove_at:
  "map snd (filter (\<lambda>(i, _). i \<noteq> index) (enumerate 0 xs)) = take index xs @ drop (Suc index) xs"
  by (simp add: remove_at_enumerate)

lemma remove_at_nonempty:
  "2 \<le> length xs \<Longrightarrow> map snd (filter (\<lambda>(i, _). i \<noteq> index) (enumerate 0 xs)) \<noteq> []"
  by (auto simp: remove_at)

text \<open>
  Claim C6. \<open>replaceComponents\<close> on the empty sequence fails with
  \<open>EmptyTaxonomyError\<close> and \<open>listComponents\<close> still returns the list stored before;
  a registry that holds a name holds one after every replacement. On the page, removing
  a component from a list of length one is refused with a toast and changes nothing, and
  no removal empties a list that has an entry.
\<close>

theorem C6_component_list_never_empty:
  "fst (replaceComponents [] reg) = Inl EmptyTaxonomyError
   \<and> listComponents (snd (replaceComponents [] reg)) = listComponents reg
   \<and> (listComponents reg \<noteq> [] \<longrightarrow> listComponents (snd (replaceComponents names reg)) \<noteq> [])
   \<and> (length (editableNames st) = 1 \<longrightarrow>
        handleRemoveComponent index st
          = (Some (toast_error (js ''Must have at least one component'')), st))
   \<and> (editableNames st \<noteq> [] \<longrightarrow> editableNames (snd (handleRemoveComponent index st)) \<noteq> [])"
proof (intro conjI impI)
  show "fst (replaceComponents [] reg) = Inl EmptyTaxonomyError"
    by (simp add: replaceComponents_def)
  show "listComponents (snd (replaceComponents [] reg)) = listComponents reg"
    by (simp add: replaceComponents_def)
  show "listComponents (snd (replaceComponents names reg)) \<noteq> []" if "listComponents reg \<noteq> []"
    using that by (simp add: replaceComponents_def listComponents_def)
  show "handleRemoveComponent index st
      = (Some (toast_error (js ''Must have at least one component'')), st)"
    if "length (editableNames st) = 1"
    using that by (simp add: handleRemoveComponent_def)
  show "editableNames (snd (handleRemoveComponent index st)) \<noteq> []" if "editableNames st \<noteq> []"
  proof (cases "length (editableNames st) \<le> 1")
    case True
    with that show ?thesis by (simp add: handleRemoveComponent_def)
  next
    case False
    then have "2 \<le> length (editableNames st)" by simp
    from remove_at_nonempty[OF this] False show ?thesis
      by (simp add: handleRemoveComponent_def)
  qed
qed

theorem C6_component_list_never_empty_witness:
  "fst (replaceComponents [] \<lparr>components = [js ''Tower'']\<rparr>) = Inl EmptyTaxonomyError
   \<and> listComponents (snd (replaceComponents [] \<lparr>components = [js ''Tower'']\<rparr>)) = [js ''Tower'']
   \<and> listComponents (snd (replaceComponents [js '' Mast ''] \<lparr>components = [js ''Tower'']\<rparr>)) \<noteq> []
   \<and> handleRemoveComponent 0 ((initial_page (js ''SITE-1''))\<lparr>editableNames := [js ''Tower'']\<rparr>)
       = (Some (toast_error (js ''Must have at least one component'')),
          (initial_page (js ''SITE-1''))\<lparr>editableNames := [js ''Tower'']\<rparr>)
   \<and> editableNames (snd (handleRemoveComponent 0
         ((initial_page (js ''SITE-1''))\<lparr>editableNames := [js ''Tower'']\<rparr>))) \<noteq> []"
  using C6_component_list_never_empty[of "\<lparr>components = [js ''Tower'']\<rparr>" "[js '' Mast '']"
      "(initial_page (js ''SITE-1''))\<lparr>editableNames := [js ''Tower'']\<rparr>" 0]
  by (simp add: listComponents_def)

section \<open>Three fixed categories with total labels\<close>

lemma capitalize_categories:
  "capitalize (js ''alpha'') = js ''Alpha''" "capitalize (js ''beta'') = js ''Beta''"
  "capitalize (js ''gamma'') = js ''Gamma''"
  by (simp_all add: capitalize_def toUpperCase_def js_def)

lemma categories_not_inherited:
  "js ''alpha'' \<notin> set Object_prototype_names" "js ''beta'' \<notin> set Object_prototype_names"
  "js ''gamma'' \<notin> set Object_prototype_names"
  by (simp_all add: Object_prototype_names_def js_def)

lemma categories_own:
  assumes "c \<in> set categories"
  shows "get_property obj c = map_option Own (obj c)"
proof -
  from assms categories_not_inherited have "c \<notin> set Object_prototype_names"
    by (auto simp: categories_def)
  then show ?thesis
    by (cases "obj c") (simp_all add: get_property_def)
qed

lemma category_tab_label_nonempty:
  "c \<in> set categories \<Longrightarrow> category_tab_label st c \<noteq> []"
  by (auto simp: categories_def category_tab_label_def capitalize_def toUpperCase_def js_def
      split: option.splits)

text \<open>
  Claim C7. The tabs and the label editor enumerate exactly \<open>alpha\<close>, \<open>beta\<close>,
  \<open>gamma\<close>, whatever the stored labels are. Every one of the three has a non-empty tab
  label: the stored label when there is a non-empty one, the capitalised identifier
  otherwise. Editing a label writes the label of that identifier only: the other entries
  stay, no identifier is renamed, and the editor still shows the same three identifiers.
  The entries of the archive are those of the filled slots of the same three categories,
  each rendered with the identifier of its category, and what the store holds under any
  other identifier does not change the archive.
\<close>

theorem C7_categories_fixed:
  "map fst (category_tabs st) = [js ''alpha'', js ''beta'', js ''gamma'']
   \<and> map fst (category_edit_inputs st) = [js ''alpha'', js ''beta'', js ''gamma'']
   \<and> distinct categories
   \<and> (\<forall>c \<in> set categories.
         (c, category_tab_label st c) \<in> set (category_tabs st)
         \<and> category_tab_label st c \<noteq> []
         \<and> (categoryNames st c = None \<longrightarrow> category_tab_label st c = capitalize c)
         \<and> (\<forall>label. categoryNames st c = Some label \<and> label \<noteq> [] \<longrightarrow>
               category_tab_label st c = label))
   \<and> map capitalize categories = [js ''Alpha'', js ''Beta'', js ''Gamma'']
   \<and> (\<forall>key \<in> set categories.
         editableCategoryNames (category_edit_onChange key v st) key = Some v
         \<and> (\<forall>k. k \<noteq> key \<longrightarrow>
               editableCategoryNames (category_edit_onChange key v st) k
                 = editableCategoryNames st k)
         \<and> dom (editableCategoryNames (category_edit_onChange key v st))
             = insert key (dom (editableCategoryNames st))
         \<and> (dom (editableCategoryNames st) \<subseteq> set categories \<longrightarrow>
               dom (editableCategoryNames (category_edit_onChange key v st)) \<subseteq> set categories)
         \<and> map fst (category_edit_inputs (category_edit_onChange key v st))
             = [js ''alpha'', js ''beta'', js ''gamma''])
   \<and> set (archive_entries format store site_id)
       = (\<Union>cat \<in> {js ''alpha'', js ''beta'', js ''gamma''}.
            (\<lambda>(comp, img).
               (spec_render format
                  \<lparr>bound_site = site_id, bound_category = cat, bound_component = comp\<rparr>
                  (extension_of (storage_filename img)),
                image_bytes img)) ` set (store site_id cat))
   \<and> ((\<forall>cat \<in> set categories. store' site_id cat = store site_id cat) \<longrightarrow>
        buildArchive format store' site_id = buildArchive format store site_id)"
proof (intro conjI ballI)
  show "map fst (category_tabs st) = [js ''alpha'', js ''beta'', js ''gamma'']"
    by (simp add: category_tabs_def categories_def)
  show "map fst (category_edit_inputs st) = [js ''alpha'', js ''beta'', js ''gamma'']"
    by (simp add: category_edit_inputs_def categories_def)
  show "distinct categories"
    by (simp add: categories_def js_def)
  show "map capitalize categories = [js ''Alpha'', js ''Beta'', js ''Gamma'']"
    by (simp add: categories_def capitalize_categories)
  show "set (archive_entries format store site_id)
      = (\<Union>cat \<in> {js ''alpha'', js ''beta'', js ''gamma''}.
           (\<lambda>(comp, img).
              (spec_render format
                 \<lparr>bound_site = site_id, bound_category = cat, bound_component = comp\<rparr>
                 (extension_of (storage_filename img)),
               image_bytes img)) ` set (store site_id cat))"
    by (simp add: archive_entries_def categories_def Un_assoc)
  show "(\<forall>cat \<in> set categories. store' site_id cat = store site_id cat) \<longrightarrow>
      buildArchive format store' site_id = buildArchive format store site_id"
    by (simp add: buildArchive_def archive_entries_def categories_def)
next
  fix c assume c: "c \<in> set categories"
  then show "(c, category_tab_label st c) \<in> set (category_tabs st)"
    by (auto simp: category_tabs_def)
  from c show "category_tab_label st c \<noteq> []"
    by (rule category_tab_label_nonempty)
  show "categoryNames st c = None \<longrightarrow> category_tab_label st c = capitalize c"
    by (simp add: category_tab_label_def)
  show "\<forall>label. categoryNames st c = Some label \<and> label \<noteq> [] \<longrightarrow> category_tab_label st c = label"
    by (simp add: category_tab_label_def)
next
  fix key assume key: "key \<in> set categories"
  show "editableCategoryNames (category_edit_onChange key v st) key = Some v"
    by (simp add: category_edit_onChange_def)
  show "\<forall>k. k \<noteq> key \<longrightarrow>
      editableCategoryNames (category_edit_onChange key v st) k = editableCategoryNames st k"
    by (simp add: category_edit_onChange_def)
  show "dom (editableCategoryNames (category_edit_onChange key v st))
      = insert key (dom (editableCategoryNames st))"
    by (simp add: category_edit_onChange_def)
  from key show "dom (editableCategoryNames st) \<subseteq> set categories \<longrightarrow>
      dom (editableCategoryNames (category_edit_onChange key v st)) \<subseteq> set categories"
    by (simp add: category_edit_onChange_def)
  show "map fst (category_edit_inputs (category_edit_onChange key v st))
      = [js ''alpha'', js ''beta'', js ''gamma'']"
    by (simp add: category_edit_inputs_def categories_def)
qed

theorem C7_categories_fixed_witness:
  "category_tabs ((initial_page (js ''SITE-1''))\<lparr>categoryNames := [js ''alpha'' \<mapsto> js ''North'', js ''beta'' \<mapsto> []]\<rparr>)
     = [(js ''alpha'', js ''North''), (js ''beta'', js ''Beta''), (js ''gamma'', js ''Gamma'')]
   \<and> category_edit_inputs (category_edit_onChange (js ''beta'') (js ''South'') (initial_page (js ''SITE-1'')))
     = [(js ''alpha'', []), (js ''beta'', js ''South''), (js ''gamma'', [])]
   \<and> dom (editableCategoryNames (category_edit_onChange (js ''beta'') (js ''South'') (initial_page (js ''SITE-1''))))
     = {js ''beta''}
   \<and> set (archive_entries (js ''{category}_{component_name}'')
        (\<lambda>s c. if c = js ''beta'' \<or> c = js ''delta''
                then [(js ''Tower'', \<lparr>storage_filename = js ''f81.PNG'', image_bytes = [1, 2]\<rparr>)]
                else [])
        (js ''SITE-1''))
     = {(js ''beta_Tower.png'', [1, 2])}"
  using C7_categories_fixed[of
      "(initial_page (js ''SITE-1''))\<lparr>categoryNames := [js ''alpha'' \<mapsto> js ''North'', js ''beta'' \<mapsto> []]\<rparr>"
      "js ''South''" "js ''{category}_{component_name}''"
      "\<lambda>s c. if c = js ''beta'' \<or> c = js ''delta''
              then [(js ''Tower'', \<lparr>storage_filename = js ''f81.PNG'', image_bytes = [1, 2]\<rparr>)]
              else []"
      "js ''SITE-1''"
      "\<lambda>s c. if c = js ''beta'' \<or> c = js ''delta''
              then [(js ''Tower'', \<lparr>storage_filename = js ''f81.PNG'', image_bytes = [1, 2]\<rparr>)]
              else []"]
    C7_categories_fixed[of "initial_page (js ''SITE-1'')" "js ''South''"]
  by (simp add: category_tabs_def category_edit_inputs_def category_tab_label_def categories_def
      category_edit_onChange_def initial_page_def capitalize_def toUpperCase_def toLowerCase_def
      spec_render_def extension_of_def sanitize_def allowed_def starts_def
      pat_site_id_def pat_category_def pat_component_name_def js_def)

section \<open>The images of a category\<close>

lemma imagesMap_foldl:
  "foldl (\<lambda>imagesMap img. set_property imagesMap (component_name img) (filename img)) m images
     = m ++ map_of (rev (map (\<lambda>img. (component_name img, filename img))
                           (filter (\<lambda>img. component_name img \<noteq> js ''__proto__'') images)))"
  by (induction images arbitrary: m) (simp_all add: map_of_append set_property_def)

lemma uploadedImages_fetch:
  "uploadedImages (snd (fetchCategoryImages (Inr images) st))
     = map_of (rev (map (\<lambda>img. (component_name img, filename img))
                      (filter (\<lambda>img. component_name img \<noteq> js ''__proto__'') images)))"
  by (simp add: fetchCategoryImages_def imagesMap_foldl)

text \<open>
  Away from the names that \<open>Object.prototype\<close> defines, the object has a key exactly for
  the components that the response lists, and \<open>getImageUrl\<close> yields nothing exactly
  for the other components when no stored file name is empty.
\<close>

lemma fetch_keys:
  assumes "k \<noteq> js ''__proto__''"
  shows "(uploadedImages (snd (fetchCategoryImages (Inr images) st)) k \<noteq> None)
       = (k \<in> component_name ` set images)"
  using assms by (force simp: uploadedImages_fetch map_of_eq_None_iff image_iff)

lemma getImageUrl_off_prototype:
  assumes "k \<notin> set Object_prototype_names" "\<forall>img \<in> set images. filename img \<noteq> []"
  shows "(getImageUrl BACKEND_URL k (snd (fetchCategoryImages (Inr images) st)) = None)
       = (k \<notin> component_name ` set images)"
proof -
  let ?st = "snd (fetchCategoryImages (Inr images) st)"
  from assms(1) have k: "k \<noteq> js ''__proto__''"
    by (auto simp: Object_prototype_names_def)
  have ne: "uploadedImages ?st k \<noteq> Some []"
  proof
    assume "uploadedImages ?st k = Some []"
    then have "(k, []) \<in> set (rev (map (\<lambda>img. (component_name img, filename img))
        (filter (\<lambda>img. component_name img \<noteq> js ''__proto__'') images)))"
      unfolding uploadedImages_fetch by (rule map_of_SomeD)
    with assms(2) show False by auto
  qed
  show ?thesis
  proof (cases "uploadedImages ?st k")
    case None
    with fetch_keys[OF k, of images st] assms(1) show ?thesis
      by (simp add: getImageUrl_def get_property_def)
  next
    case (Some name)
    with fetch_keys[OF k, of images st] ne show ?thesis
      by (simp add: getImageUrl_def get_property_def)
  qed
qed

text \<open>
  Claim C8, at the inputs where the page departs from it. With no image listed, the
  component name \<open>constructor\<close> is no key of the object, and \<open>getImageUrl\<close> still yields
  a reference, made of the inherited member. An image listed for the component name
  \<open>__proto__\<close> is a filled slot, and the object has no key for it.
\<close>

theorem C8_inherited_names:
  "uploadedImages (snd (fetchCategoryImages (Inr []) (initial_page (js ''SITE-1''))))
     (js ''constructor'') = None
   \<and> getImageUrl (js ''http://h'') (js ''constructor'')
       (snd (fetchCategoryImages (Inr []) (initial_page (js ''SITE-1''))))
     = Some (js ''http://h/uploads/SITE-1/alpha/'', Inherited (js ''constructor''))
   \<and> uploadedImages (snd (fetchCategoryImages
       (Inr [\<lparr>component_name = js ''__proto__'', filename = js ''a1.jpg''\<rparr>])
       (initial_page (js ''SITE-1'')))) (js ''__proto__'') = None
   \<and> getImageUrl (js ''http://h'') (js ''Tower'')
       (snd (fetchCategoryImages (Inr [\<lparr>component_name = js ''Tower'', filename = js ''a1.jpg''\<rparr>])
          (initial_page (js ''SITE-1''))))
     = Some (js ''http://h/uploads/SITE-1/alpha/'', Own (js ''a1.jpg''))"
  by (simp add: fetchCategoryImages_def getImageUrl_def get_property_def set_property_def
      Object_prototype_names_def initial_page_def js_def)

text \<open>
  For every other name the last entry wins, in the object of the page and in the
  container of the archive.
\<close>

lemma fetch_last:
  assumes "component_name img \<noteq> js ''__proto__''"
    and "component_name img \<notin> component_name ` set later"
  shows "uploadedImages (snd (fetchCategoryImages (Inr (earlier @ [img] @ later)) st))
           (component_name img) = Some (filename img)"
proof -
  have "map_of (rev (map (\<lambda>img. (component_name img, filename img))
      (filter (\<lambda>img. component_name img \<noteq> js ''__proto__'') later))) (component_name img) = None"
    using assms(2) by (force simp: map_of_eq_None_iff image_iff)
  with assms(1) show ?thesis
    by (simp add: uploadedImages_fetch map_of_append map_add_def)
qed

lemma container_foldl:
  "foldl (\<lambda>container (name, bytes). container(name \<mapsto> bytes)) m entries
     = m ++ map_of (rev entries)"
  by (induction entries arbitrary: m) (auto simp: map_of_append)

lemma archive_last_entry_wins:
  assumes "archive_entries format store site_id = earlier @ [(name, bytes)] @ later"
    and "name \<notin> fst ` set later"
  shows "\<exists>container. buildArchive format store site_id = Inr container
           \<and> container name = Some bytes"
proof -
  have "map_of (rev later) name = None"
    using assms(2) by (simp add: map_of_eq_None_iff)
  then show ?thesis
    by (simp add: buildArchive_def assms(1) container_foldl map_of_append map_add_def)
qed


section \<open>The site id of the landing page\<close>

lemma trim_Nil: "(trim s = []) = list_all isWhiteSpace s"
proof
  assume "trim s = []"
  then have "dropWhile isWhiteSpace (rev (dropWhile isWhiteSpace s)) = []"
    by (simp add: trim_def)
  then have a: "\<forall>x \<in> set (dropWhile isWhiteSpace s). isWhiteSpace x"
    by (simp add: dropWhile_eq_Nil_conv)
  have "dropWhile isWhiteSpace s = []"
  proof (rule ccontr)
    assume ne: "dropWhile isWhiteSpace s \<noteq> []"
    then have "\<not> isWhiteSpace (hd (dropWhile isWhiteSpace s))" by (rule hd_dropWhile)
    with a ne show False by (meson hd_in_set)
  qed
  then show "list_all isWhiteSpace s"
    by (simp add: dropWhile_eq_Nil_conv list_all_iff)
next
  assume "list_all isWhiteSpace s"
  then have "dropWhile isWhiteSpace s = []"
    by (simp add: dropWhile_eq_Nil_conv list_all_iff)
  then show "trim s = []"
    unfolding trim_def by (simp only: rev.simps dropWhile.simps)
qed

lemma trim_core:
  "dropWhile isWhiteSpace s
     = trim s @ rev (takeWhile isWhiteSpace (rev (dropWhile isWhiteSpace s)))"
proof -
  let ?t = "dropWhile isWhiteSpace s"
  have "trim s @ rev (takeWhile isWhiteSpace (rev ?t))
      = rev (takeWhile isWhiteSpace (rev ?t) @ dropWhile isWhiteSpace (rev ?t))"
    by (simp only: trim_def rev_append)
  also have "\<dots> = ?t"
    by (simp only: takeWhile_dropWhile_id rev_rev_ident)
  finally show ?thesis by (rule sym)
qed

lemma trim_split:
  "s = takeWhile isWhiteSpace s @ trim s
       @ rev (takeWhile isWhiteSpace (rev (dropWhile isWhiteSpace s)))"
proof -
  have "s = takeWhile isWhiteSpace s @ dropWhile isWhiteSpace s"
    by (simp only: takeWhile_dropWhile_id)
  with trim_core[of s] show ?thesis by (simp only:)
qed

lemma trim_ends:
  assumes "trim s \<noteq> []"
  shows "\<not> isWhiteSpace (hd (trim s))" "\<not> isWhiteSpace (last (trim s))"
proof -
  let ?t = "dropWhile isWhiteSpace s"
  let ?u = "dropWhile isWhiteSpace (rev ?t)"
  from assms have u: "?u \<noteq> []" by (simp add: trim_def)
  then have "\<not> isWhiteSpace (hd ?u)" by (rule hd_dropWhile)
  with u show "\<not> isWhiteSpace (last (trim s))"
    by (simp add: trim_def last_rev)
  have t: "?t \<noteq> []"
  proof
    assume "?t = []"
    then have "?u = []" by (simp only: rev.simps dropWhile.simps)
    with u show False by contradiction
  qed
  then have nt: "\<not> isWhiteSpace (hd ?t)" by (rule hd_dropWhile)
  from assms have "hd (trim s @ rev (takeWhile isWhiteSpace (rev ?t))) = hd (trim s)"
    by (rule hd_append2)
  with trim_core[of s] have "hd ?t = hd (trim s)" by (simp only:)
  with nt show "\<not> isWhiteSpace (hd (trim s))" by simp
qed

text \<open>
  \<open>handleSubmit\<close> navigates exactly when the input is not empty after trimming, and
  then to \<open>/upload/\<close> followed by the input without the white space at its two ends.
\<close>

lemma handleSubmit_navigates_trimmed:
  "(handleSubmit input \<noteq> None) = (trim input \<noteq> [])
   \<and> (trim input \<noteq> [] \<longrightarrow> handleSubmit input = Some (js ''/upload/'' @ trim input))
   \<and> (list_all isWhiteSpace input \<longrightarrow> handleSubmit input = None)
   \<and> (\<exists>l r. input = l @ trim input @ r \<and> list_all isWhiteSpace l \<and> list_all isWhiteSpace r)
   \<and> (trim input \<noteq> [] \<longrightarrow>
        \<not> isWhiteSpace (hd (trim input)) \<and> \<not> isWhiteSpace (last (trim input)))
   \<and> submit_disabled input = (handleSubmit input = None)"
proof (intro conjI impI)
  show "(handleSubmit input \<noteq> None) = (trim input \<noteq> [])"
    by (simp add: handleSubmit_def)
  show "handleSubmit input = Some (js ''/upload/'' @ trim input)" if "trim input \<noteq> []"
    using that by (simp add: handleSubmit_def)
  show "handleSubmit input = None" if "list_all isWhiteSpace input"
    using that by (simp add: handleSubmit_def trim_Nil)
  have "list_all isWhiteSpace (takeWhile isWhiteSpace input)"
    by (auto simp: list_all_iff dest: set_takeWhileD)
  moreover have "list_all isWhiteSpace
      (rev (takeWhile isWhiteSpace (rev (dropWhile isWhiteSpace input))))"
    by (auto simp: list_all_iff dest: set_takeWhileD)
  ultimately show "\<exists>l r. input = l @ trim input @ r \<and> list_all isWhiteSpace l \<and> list_all isWhiteSpace r"
    using trim_split[of input] by blast
  show "\<not> isWhiteSpace (hd (trim input))" if "trim input \<noteq> []"
    using that by (rule trim_ends)
  show "\<not> isWhiteSpace (last (trim input))" if "trim input \<noteq> []"
    using that by (rule trim_ends)
  show "submit_disabled input = (handleSubmit input = None)"
    by (simp add: submit_disabled_def handleSubmit_def)
qed

text \<open>
  Claim C10, at the inputs where the page departs from it. The trimmed token goes into
  the target as it is. A token with a solidus gives a target that the route of the upload
  page does not match, and of a token with a question mark the route keeps only what
  precedes the mark, so the site id of the upload page is not the trimmed token. A token
  without such characters arrives whole.
\<close>

theorem C10_token_not_kept:
  "handleSubmit (js '' SITE/7 '') = Some (js ''/upload/SITE/7'')
   \<and> route_siteId (js ''/upload/SITE/7'') = None
   \<and> handleSubmit (js ''x?y'') = Some (js ''/upload/x?y'')
   \<and> route_siteId (js ''/upload/x?y'') = Some (js ''x'')
   \<and> handleSubmit (js '' SITE-7 '') = Some (js ''/upload/SITE-7'')
   \<and> route_siteId (js ''/upload/SITE-7'') = Some (js ''SITE-7'')"
  by (simp add: handleSubmit_def trim_def isWhiteSpace_def route_siteId_def
      parsePath_pathname_def toLowerCase_def js_def)

end
